theory Spec2Isabelle
  imports Main
begin

section \<open>String primitives used by the link checker\<close>

text \<open>
  JavaScript strings are modelled as \<open>string\<close> (lists of 8-bit characters), so the
  texts covered are those over Latin-1. The double quote and the two line terminators
  that exist in this range are written by their codes.
\<close>

abbreviation dquote :: char where
  "dquote \<equiv> CHR 0x22"

definition lineTerminator :: "char \<Rightarrow> bool" where
  "lineTerminator c = (c = CHR 0x0A \<or> c = CHR 0x0D)"

text \<open>\<open>s.startsWith(p)\<close>\<close>

fun startsWith :: "string \<Rightarrow> string \<Rightarrow> bool" where
  "startsWith s [] = True"
| "startsWith [] (c # p) = False"
| "startsWith (x # s) (c # p) = (x = c \<and> startsWith s p)"

text \<open>\<open>s.includes(p)\<close> (the name is reserved in Isabelle)\<close>

fun includesStr :: "string \<Rightarrow> string \<Rightarrow> bool" where
  "includesStr [] p = (p = [])"
| "includesStr (x # s) p = (startsWith (x # s) p \<or> includesStr s p)"

text \<open>\<open>s.replace(pat, rep)\<close> with a string pattern: the first occurrence only.\<close>

fun replace :: "string \<Rightarrow> string \<Rightarrow> string \<Rightarrow> string" where
  "replace [] pat rep = (if pat = [] then rep else [])"
| "replace (x # s) pat rep =
     (if startsWith (x # s) pat then rep @ drop (length pat) (x # s)
      else x # replace s pat rep)"

text \<open>\<open>s.split("?")[0]\<close>: the part before the first question mark.\<close>

definition splitHead :: "string \<Rightarrow> string" where
  "splitHead s = takeWhile (\<lambda>c. c \<noteq> CHR ''?'') s"

text \<open>\<open>s.slice(6, -1)\<close>\<close>

definition slice6 :: "string \<Rightarrow> string" where
  "slice6 s = butlast (drop 6 s)"

section \<open>Link extraction: \<open>text.match(/href=".+?"/g) || []\<close>\<close>

text \<open>
  \<open>lazyToQuote\<close> is the tail of the lazy \<open>.+?\<close> followed by the closing quote, once
  the first character has been consumed: it extends over characters that are not line
  terminators up to the first double quote, and fails at a line terminator or at the end
  of the text. It returns the text matched (closing quote included) and the rest.
\<close>

fun lazyToQuote :: "string \<Rightarrow> (string \<times> string) option" where
  "lazyToQuote [] = None"
| "lazyToQuote (c # cs) =
     (if c = dquote then Some ([c], cs)
      else if lineTerminator c then None
      else (case lazyToQuote cs of
              None \<Rightarrow> None
            | Some (m, r) \<Rightarrow> Some (c # m, r)))"

text \<open>The pattern anchored at the start of the text: the match and what follows it.\<close>

definition matchHere :: "string \<Rightarrow> (string \<times> string) option" where
  "matchHere t =
     (if startsWith t (''href='' @ [dquote]) then
        (case drop 6 t of
           [] \<Rightarrow> None
         | c # cs \<Rightarrow>
             if lineTerminator c then None
             else (case lazyToQuote cs of
                     None \<Rightarrow> None
                   | Some (m, r) \<Rightarrow> Some (''href='' @ [dquote] @ c # m, r)))
      else None)"

lemma lazyToQuote_shorter: "lazyToQuote cs = Some (m, r) \<Longrightarrow> length r < length cs"
  by (induction cs arbitrary: m r) (auto split: if_splits option.splits)

lemma matchHere_shorter: "matchHere t = Some (m, r) \<Longrightarrow> length r < length t"
proof -
  assume h: "matchHere t = Some (m, r)"
  then obtain c cs m' where d: "drop 6 t = c # cs" and l: "lazyToQuote cs = Some (m', r)"
    by (auto simp: matchHere_def split: if_splits list.splits option.splits)
  from l have "length r < length cs" by (rule lazyToQuote_shorter)
  moreover have "length (drop 6 t) = Suc (length cs)" using d by simp
  ultimately show ?thesis by simp
qed

text \<open>The global match: all matches from left to right, each search resuming after the
  previous match.\<close>

function matchAll :: "string \<Rightarrow> string list" where
  "matchAll [] = []"
| "matchAll (c # cs) =
     (case matchHere (c # cs) of
        Some (m, r) \<Rightarrow> m # matchAll r
      | None \<Rightarrow> matchAll cs)"
  by pat_completeness auto
termination
  by (relation "measure length") (auto dest: matchHere_shorter)

section \<open>Normalisation of one href and \<open>getHrefs\<close>\<close>

text \<open>
  The body of the \<open>map\<close> callback after the slice. \<open>None\<close> is JavaScript's \<open>null\<close>.
  The warning printed for the literals \<open>true\<close> and \<open>false\<close> goes to the console only.
\<close>

definition resolveHref :: "string \<Rightarrow> string \<Rightarrow> string \<Rightarrow> string option" where
  "resolveHref baseUrl currentUrl href =
     (let href' =
        (if startsWith href ''/'' then Some (baseUrl @ href)
         else if startsWith href ''#'' \<or> startsWith href ''mailto:'' \<or> startsWith href ''tel:''
           then None
         else if href = ''true'' \<or> href = ''false'' then None
         else if startsWith href ''http'' then Some href
         else Some (currentUrl @ href))
      in case href' of
           None \<Rightarrow> None
         | Some h \<Rightarrow> if h \<noteq> [] then Some (splitHead h) else Some h)"

text \<open>\<open>!!href\<close>: \<open>null\<close> and the empty string are falsy.\<close>

fun truthy :: "string option \<Rightarrow> bool" where
  "truthy None = False"
| "truthy (Some s) = (s \<noteq> [])"

definition getHrefs :: "string \<Rightarrow> string \<Rightarrow> string \<Rightarrow> string list" where
  "getHrefs baseUrl text currentUrl =
     map the (filter truthy (map (\<lambda>m. resolveHref baseUrl currentUrl (slice6 m)) (matchAll text)))"

text \<open>
  The normaliser of one href: the callback followed by the truthiness filter, where
  \<open>None\<close> stands for a discarded href.
\<close>

definition normalizeHref :: "string \<Rightarrow> string \<Rightarrow> string \<Rightarrow> string option" where
  "normalizeHref href currentPageUrl baseOrigin =
     (let r = resolveHref baseOrigin currentPageUrl href in if truthy r then r else None)"

text \<open>
  The repository holds a second copy of the script, which prints the report instead of
  saving it. Its callback is the same without the branch for the literals \<open>true\<close> and
  \<open>false\<close>.
\<close>

definition resolveHrefCopy :: "string \<Rightarrow> string \<Rightarrow> string \<Rightarrow> string option" where
  "resolveHrefCopy baseUrl currentUrl href =
     (let href' =
        (if startsWith href ''/'' then Some (baseUrl @ href)
         else if startsWith href ''#'' \<or> startsWith href ''mailto:'' \<or> startsWith href ''tel:''
           then None
         else if startsWith href ''http'' then Some href
         else Some (currentUrl @ href))
      in case href' of
           None \<Rightarrow> None
         | Some h \<Rightarrow> if h \<noteq> [] then Some (splitHead h) else Some h)"

section \<open>The starting URL\<close>

definition startingUrl :: "string \<Rightarrow> string" where
  "startingUrl arg =
     (if startsWith arg ''http'' then replace arg ''http://'' ''https://''
      else ''https://'' @ arg)"

section \<open>The crawl loop\<close>

record entry =
  url :: string
  foundOn :: string

text \<open>
  The transport is a parameter: \<open>fetch url\<close> is \<open>None\<close> when the request is
  rejected, \<open>headers r name\<close> is \<open>headers.get(name)\<close> (\<open>None\<close> for \<open>null\<close>), and
  \<open>bodyText r\<close> is \<open>None\<close> when reading the body is rejected.
\<close>

record response =
  status :: int
  headers :: "string \<Rightarrow> string option"
  bodyText :: "string option"

datatype error = FetchFailed | PageNotFound | NullContentType | BodyFailed

record crawl_state =
  queue :: "entry list"
  queuePosition :: nat
  visitedUrls :: "string set"
  brokenLinks :: "entry list"
  fetched :: "string list"

text \<open>
  The \<open>try\<close> block up to the call of \<open>getHrefs\<close>: the error thrown, or the hrefs found
  on the page (none for a page outside the base URL, which is not scanned).
\<close>

definition scanPage :: "(string \<Rightarrow> response option) \<Rightarrow> string \<Rightarrow> string \<Rightarrow> error + string list" where
  "scanPage fetch baseUrl u =
     (case fetch u of
        None \<Rightarrow> Inl FetchFailed
      | Some r \<Rightarrow>
          if status r = 404 then Inl PageNotFound
          else if startsWith u baseUrl then
            (case headers r ''content-type'' of
               None \<Rightarrow> Inl NullContentType
             | Some contentType \<Rightarrow>
                 if includesStr contentType ''text/html'' then
                   (case bodyText r of
                      None \<Rightarrow> Inl BodyFailed
                    | Some html \<Rightarrow> Inr (getHrefs baseUrl html u))
                 else Inr (getHrefs baseUrl [] u))
          else Inr [])"

definition loopCond :: "crawl_state \<Rightarrow> bool" where
  "loopCond st = (queuePosition st < length (queue st))"

text \<open>
  One iteration of the \<open>while\<close> loop, run only when \<open>loopCond\<close> holds. The field
  \<open>fetched\<close> logs the calls of the transport in the order they are issued.
\<close>

definition loopBody :: "(string \<Rightarrow> response option) \<Rightarrow> string \<Rightarrow> crawl_state \<Rightarrow> crawl_state" where
  "loopBody fetch baseUrl st =
     (let e = queue st ! queuePosition st;
          st1 = st\<lparr>queuePosition := Suc (queuePosition st)\<rparr>
      in if url e \<in> visitedUrls st1 then st1
         else
           let st2 = st1\<lparr>visitedUrls := insert (url e) (visitedUrls st1)\<rparr>;
               st3 = st2\<lparr>fetched := fetched st2 @ [url e]\<rparr>
           in case scanPage fetch baseUrl (url e) of
                Inr hrefs \<Rightarrow>
                  st3\<lparr>queue := queue st3 @
                    map (\<lambda>h. \<lparr>url = h, foundOn = url e\<rparr>)
                      (filter (\<lambda>h. h \<notin> visitedUrls st3) hrefs)\<rparr>
              | Inl err \<Rightarrow>
                  st3\<lparr>brokenLinks := brokenLinks st3 @ [\<lparr>url = url e, foundOn = foundOn e\<rparr>]\<rparr>)"

partial_function (option) runLoop ::
  "(string \<Rightarrow> response option) \<Rightarrow> string \<Rightarrow> crawl_state \<Rightarrow> crawl_state option" where
  "runLoop fetch baseUrl st =
     (if loopCond st then runLoop fetch baseUrl (loopBody fetch baseUrl st) else Some st)"

text \<open>The first \<open>n\<close> iterations of the loop (fewer when the loop ends before).\<close>

fun iterations :: "(string \<Rightarrow> response option) \<Rightarrow> string \<Rightarrow> nat \<Rightarrow> crawl_state \<Rightarrow> crawl_state" where
  "iterations fetch baseUrl 0 st = st"
| "iterations fetch baseUrl (Suc n) st =
     (if loopCond st then iterations fetch baseUrl n (loopBody fetch baseUrl st) else st)"

definition initialState :: "string \<Rightarrow> crawl_state" where
  "initialState s =
     \<lparr>queue = [\<lparr>url = s, foundOn = ''base URL''\<rparr>], queuePosition = 0,
      visitedUrls = {}, brokenLinks = [], fetched = []\<rparr>"

definition runLinkCheck :: "(string \<Rightarrow> response option) \<Rightarrow> string \<Rightarrow> crawl_state option" where
  "runLinkCheck fetch arg =
     (let baseUrl = startingUrl arg in runLoop fetch baseUrl (initialState baseUrl))"

section \<open>Example sites\<close>

text \<open>An anchor element with the given href, and a response with or without a
  content type.\<close>

definition anchor :: "string \<Rightarrow> string" where
  "anchor h = ''<a href='' @ [dquote] @ h @ [dquote] @ ''>x</a>''"

definition htmlPage :: "string \<Rightarrow> response" where
  "htmlPage body =
     \<lparr>status = 200,
      headers = (\<lambda>n. if n = ''content-type'' then Some ''text/html; charset=utf-8'' else None),
      bodyText = Some body\<rparr>"

definition bareResponse :: "int \<Rightarrow> response" where
  "bareResponse code = \<lparr>status = code, headers = (\<lambda>n. None), bodyText = Some []\<rparr>"

text \<open>
  A site whose start page links to \<open>/a\<close> and \<open>/b\<close>; \<open>/a\<close> links to \<open>/c\<close> and again to
  \<open>/b\<close> (with a query string); \<open>/b\<close> answers 200 without a content type; \<open>/c\<close> answers
  404.
\<close>

definition demoSite :: "string \<Rightarrow> response option" where
  "demoSite u =
     (if u = ''https://a.test'' then Some (htmlPage (anchor ''/a'' @ anchor ''/b''))
      else if u = ''https://a.test/a'' then Some (htmlPage (anchor ''/c'' @ anchor ''/b?x=1''))
      else if u = ''https://a.test/b'' then Some (bareResponse 200)
      else if u = ''https://a.test/c'' then Some (bareResponse 404)
      else None)"

text \<open>A site that answers every request with status 200 and no content type.\<close>

definition noTypeSite :: "string \<Rightarrow> response option" where
  "noTypeSite u = Some (bareResponse 200)"

text \<open>A site with a cycle: \<open>/a\<close> and \<open>/b\<close> link to each other, and \<open>/a\<close> links back to
  the root.\<close>

definition cyclicSite :: "string \<Rightarrow> response option" where
  "cyclicSite u =
     (if u = ''https://c.test'' then Some (htmlPage (anchor ''/a''))
      else if u = ''https://c.test/'' then Some (htmlPage (anchor ''/a''))
      else if u = ''https://c.test/a'' then Some (htmlPage (anchor ''/b'' @ anchor ''/''))
      else if u = ''https://c.test/b'' then Some (htmlPage (anchor ''/a''))
      else None)"

text \<open>A site whose start page links to \<open>/a\<close> then \<open>/b\<close>, where \<open>/a\<close> links to \<open>/c\<close> and
  \<open>/b\<close> links to \<open>/d\<close>.\<close>

definition bfsSite :: "string \<Rightarrow> response option" where
  "bfsSite u =
     (if u = ''https://b.test'' then Some (htmlPage (anchor ''/a'' @ anchor ''/b''))
      else if u = ''https://b.test/a'' then Some (htmlPage (anchor ''/c''))
      else if u = ''https://b.test/b'' then Some (htmlPage (anchor ''/d''))
      else if u = ''https://b.test/c'' then Some (htmlPage [])
      else if u = ''https://b.test/d'' then Some (htmlPage [])
      else None)"

text \<open>A page whose only hrefs are a fragment, a mailto link and the literal \<open>true\<close>.\<close>

definition scenarioPage :: string where
  "scenarioPage = anchor ''#section'' @ anchor ''mailto:x@y.com'' @ anchor ''true''"

definition scenarioSite :: "string \<Rightarrow> response option" where
  "scenarioSite u = (if u = ''https://s.test'' then Some (htmlPage scenarioPage) else None)"

text \<open>A transport that rejects every request.\<close>

definition deadSite :: "string \<Rightarrow> response option" where
  "deadSite u = None"

section \<open>Invariants of the crawl state\<close>

text \<open>The transport has been called once for each visited URL, and for no other.\<close>

definition crawlInv :: "crawl_state \<Rightarrow> bool" where
  "crawlInv st = (distinct (fetched st) \<and> set (fetched st) = visitedUrls st)"

text \<open>Every frontier URL starts with \<open>http\<close>, and every entry after the seed has no
  question mark in its URL.\<close>

definition frontierInv :: "crawl_state \<Rightarrow> bool" where
  "frontierInv st =
     ((\<forall>e \<in> set (queue st). startsWith (url e) ''http'') \<and>
      (\<forall>e \<in> set (tl (queue st)). CHR ''?'' \<notin> set (url e)))"

text \<open>The elements of a list in the order of their first occurrence.\<close>

definition firstOccurrences :: "'a list \<Rightarrow> 'a list" where
  "firstOccurrences xs = rev (remdups (rev xs))"

text \<open>The visited URLs are those of the popped entries, and the transport has been called
  for them in the order in which they first stand in the frontier.\<close>

definition fifoInv :: "crawl_state \<Rightarrow> bool" where
  "fifoInv st =
     (queuePosition st \<le> length (queue st) \<and>
      visitedUrls st = set (map url (take (queuePosition st) (queue st))) \<and>
      fetched st = firstOccurrences (map url (take (queuePosition st) (queue st))))"

text \<open>The state of the crawl of \<open>demoSite\<close> after two iterations.\<close>

definition demoState2 :: crawl_state where
  "demoState2 = iterations demoSite ''https://a.test'' (Suc (Suc 0)) (initialState ''https://a.test'')"

lemmas model_defs =
  getHrefs_def matchHere_def lineTerminator_def slice6_def resolveHref_def splitHead_def
  scanPage_def loopBody_def loopCond_def initialState_def runLinkCheck_def startingUrl_def
  normalizeHref_def Let_def

lemmas site_defs =
  anchor_def htmlPage_def bareResponse_def demoSite_def noTypeSite_def cyclicSite_def
  bfsSite_def scenarioPage_def scenarioSite_def deadSite_def

section \<open>Facts about the string primitives\<close>

lemma startsWith_iff: "startsWith s p \<longleftrightarrow> (\<exists>t. s = p @ t)"
  by (induction s p rule: startsWith.induct) auto

lemma startsWith_append_left: "startsWith b q \<Longrightarrow> startsWith (b @ h) q"
  by (auto simp: startsWith_iff)

lemma takeWhile_stop: "\<not> P x \<Longrightarrow> takeWhile P (xs @ x # ys) = takeWhile P xs"
  by (induction xs) auto

lemma splitHead_query: "splitHead (xs @ CHR ''?'' # q) = splitHead xs"
  by (simp add: splitHead_def takeWhile_stop)

lemma splitHead_no_query: "CHR ''?'' \<notin> set (splitHead s)"
  unfolding splitHead_def by (induction s) auto

lemma splitHead_http: "startsWith s ''http'' \<Longrightarrow> startsWith (splitHead s) ''http''"
  by (auto simp: startsWith_iff splitHead_def)

lemma splitHead_http_nonempty: "startsWith s ''http'' \<Longrightarrow> splitHead s \<noteq> []"
  by (auto simp: startsWith_iff splitHead_def)

lemma scheme_http:
  "startsWith s ''http://'' \<or> startsWith s ''https://'' \<Longrightarrow> startsWith s ''http''"
  by (auto simp: startsWith_iff)

lemma replace_http:
  "startsWith s ''http'' \<Longrightarrow> startsWith (replace s ''http://'' ''https://'') ''http''"
  by (cases s) (auto simp: startsWith_iff)

section \<open>The starting URL\<close>

lemma startingUrl_http: "startsWith (startingUrl arg) ''http''"
  by (simp add: startingUrl_def replace_http)

lemma startingUrl_prepends:
  "\<not> startsWith arg ''http'' \<Longrightarrow> startingUrl arg = ''https://'' @ arg"
  by (simp add: startingUrl_def)

lemma startingUrl_upgrades: "startingUrl (''http://'' @ rest) = ''https://'' @ rest"
  by (simp add: startingUrl_def)

text \<open>
  C8. The claim: a starting URL without a scheme gets \<open>https://\<close> prepended, and one
  given with \<open>http://\<close> is upgraded to \<open>https://\<close>. The two lemmas above show what the
  code does: it prepends when the argument does not begin with the four letters
  \<open>http\<close>, and it upgrades a leading \<open>http://\<close>. The host name \<open>httpbin.org\<close> has no
  scheme and begins with \<open>http\<close>: it is taken as it is, with nothing prepended, where
  \<open>example.org\<close> becomes \<open>https://example.org\<close>.
\<close>

theorem startingUrl_httpbin_unchanged:
  "\<not> startsWith ''httpbin.org'' ''http://'' \<and>
   \<not> startsWith ''httpbin.org'' ''https://'' \<and>
   startingUrl ''httpbin.org'' = ''httpbin.org'' \<and>
   startingUrl ''example.org'' = ''https://example.org''"
  by (simp add: startingUrl_def)

section \<open>Normalisation of hrefs\<close>

text \<open>
  C4 as stated has no rule for the literals \<open>true\<close> and \<open>false\<close>: the href \<open>true\<close>
  starts with none of \<open>/\<close>, \<open>#\<close>, \<open>mailto:\<close>, \<open>tel:\<close> and \<open>http\<close>, so the claim resolves
  it against the current page. The code discards it.
\<close>

theorem normalizeHref_true_discarded:
  "\<not> startsWith ''true'' ''/'' \<and>
   \<not> startsWith ''true'' ''#'' \<and>
   \<not> startsWith ''true'' ''mailto:'' \<and>
   \<not> startsWith ''true'' ''tel:'' \<and>
   \<not> startsWith ''true'' ''http'' \<and>
   normalizeHref ''true'' ''https://a.test/'' ''https://a.test'' = None \<and>
   normalizeHref ''true'' ''https://a.test/'' ''https://a.test''
     \<noteq> Some (splitHead (''https://a.test/'' @ ''true''))"
  by (simp add: normalizeHref_def resolveHref_def)

text \<open>
  C4, amended. For every href \<open>h\<close>, and every current page URL \<open>p\<close> and base origin \<open>b\<close>
  (absolute URLs: they start with \<open>http://\<close> or \<open>https://\<close>), the rules apply in this
  order: an \<open>h\<close> starting with \<open>/\<close> gives \<open>b + h\<close>; one starting with \<open>#\<close>, \<open>mailto:\<close> or
  \<open>tel:\<close> is discarded; one that is exactly \<open>true\<close> or \<open>false\<close> is discarded; one
  starting with the scheme \<open>http://\<close> or \<open>https://\<close> is kept as it is; an \<open>h\<close> that meets
  none of these conditions and does not begin with the letters \<open>http\<close> gives \<open>p + h\<close>;
  and every kept result is cut at its first question mark. The conditions exclude one
  another, so each rule is stated on its own. Nothing is said of an href that begins
  with \<open>http\<close> without being a scheme (see \<open>normalizeHref_http_prefix_kept\<close> below).
\<close>

theorem normalizeHref_rules:
  assumes "startsWith b ''http://'' \<or> startsWith b ''https://''"
    and "startsWith p ''http://'' \<or> startsWith p ''https://''"
  shows "(startsWith h ''/'' \<longrightarrow> normalizeHref h p b = Some (splitHead (b @ h))) \<and>
    (startsWith h ''#'' \<or> startsWith h ''mailto:'' \<or> startsWith h ''tel:'' \<longrightarrow>
       normalizeHref h p b = None) \<and>
    (h = ''true'' \<or> h = ''false'' \<longrightarrow> normalizeHref h p b = None) \<and>
    (startsWith h ''http://'' \<or> startsWith h ''https://'' \<longrightarrow>
       normalizeHref h p b = Some (splitHead h)) \<and>
    (\<not> startsWith h ''/'' \<and> \<not> startsWith h ''#'' \<and> \<not> startsWith h ''mailto:'' \<and>
     \<not> startsWith h ''tel:'' \<and> h \<noteq> ''true'' \<and> h \<noteq> ''false'' \<and> \<not> startsWith h ''http'' \<longrightarrow>
       normalizeHref h p b = Some (splitHead (p @ h)))"
proof -
  have bh: "startsWith b ''http''" using assms(1) by (rule scheme_http)
  have ph: "startsWith p ''http''" using assms(2) by (rule scheme_http)
  have b: "splitHead (b @ h) \<noteq> []" "b @ h \<noteq> []"
    using bh splitHead_http_nonempty[OF startsWith_append_left[OF bh], of h]
    by (auto simp: startsWith_iff)
  have p: "splitHead (p @ h) \<noteq> []" "p @ h \<noteq> []"
    using ph splitHead_http_nonempty[OF startsWith_append_left[OF ph], of h]
    by (auto simp: startsWith_iff)
  have r1: "startsWith h ''/'' \<longrightarrow> normalizeHref h p b = Some (splitHead (b @ h))"
    using b by (simp add: normalizeHref_def resolveHref_def Let_def)
  have r2: "startsWith h ''#'' \<or> startsWith h ''mailto:'' \<or> startsWith h ''tel:'' \<longrightarrow>
       normalizeHref h p b = None"
    by (auto simp: normalizeHref_def resolveHref_def Let_def startsWith_iff)
  have r3: "h = ''true'' \<or> h = ''false'' \<longrightarrow> normalizeHref h p b = None"
    by (auto simp: normalizeHref_def resolveHref_def Let_def)
  have r4: "startsWith h ''http://'' \<or> startsWith h ''https://'' \<longrightarrow>
       normalizeHref h p b = Some (splitHead h)"
  proof
    assume s: "startsWith h ''http://'' \<or> startsWith h ''https://''"
    then have hh: "startsWith h ''http''" by (rule scheme_http)
    then have ne: "splitHead h \<noteq> []" "h \<noteq> []"
      using splitHead_http_nonempty[of h] by (auto simp: startsWith_iff)
    from s have no: "\<not> startsWith h ''/''" "\<not> startsWith h ''#''" "\<not> startsWith h ''mailto:''"
      "\<not> startsWith h ''tel:''" "h \<noteq> ''true''" "h \<noteq> ''false''"
      by (auto simp: startsWith_iff)
    show "normalizeHref h p b = Some (splitHead h)"
      using hh ne no by (simp add: normalizeHref_def resolveHref_def Let_def)
  qed
  have r5: "\<not> startsWith h ''/'' \<and> \<not> startsWith h ''#'' \<and> \<not> startsWith h ''mailto:'' \<and>
     \<not> startsWith h ''tel:'' \<and> h \<noteq> ''true'' \<and> h \<noteq> ''false'' \<and> \<not> startsWith h ''http'' \<longrightarrow>
       normalizeHref h p b = Some (splitHead (p @ h))"
    using p by (simp add: normalizeHref_def resolveHref_def Let_def)
  show ?thesis using r1 r2 r3 r4 r5 by blast
qed

theorem normalizeHref_rules_witness:
  "startsWith ''https://a.test'' ''https://'' \<and> startsWith ''https://a.test/docs/'' ''https://'' \<and>
   normalizeHref ''/about?x=1'' ''https://a.test/docs/'' ''https://a.test''
     = Some ''https://a.test/about'' \<and>
   normalizeHref ''tel:+1'' ''https://a.test/docs/'' ''https://a.test'' = None \<and>
   normalizeHref ''false'' ''https://a.test/docs/'' ''https://a.test'' = None \<and>
   normalizeHref ''http://other.test/p?q'' ''https://a.test/docs/'' ''https://a.test''
     = Some ''http://other.test/p'' \<and>
   normalizeHref ''intro.html?lang=en'' ''https://a.test/docs/'' ''https://a.test''
     = Some ''https://a.test/docs/intro.html''"
proof -
  have b: "startsWith ''https://a.test'' ''http://'' \<or> startsWith ''https://a.test'' ''https://''"
    by simp
  have p: "startsWith ''https://a.test/docs/'' ''http://''
      \<or> startsWith ''https://a.test/docs/'' ''https://''"
    by simp
  note r = normalizeHref_rules[OF b p]
  show ?thesis
    using r[of "''/about?x=1''"] r[of "''tel:+1''"] r[of "''false''"]
      r[of "''http://other.test/p?q''"] r[of "''intro.html?lang=en''"]
    by (simp add: splitHead_def)
qed

text \<open>
  The test for a scheme in the callback is \<open>startsWith("http")\<close>: a relative href such
  as \<open>http-basics.html\<close> is taken for an absolute URL and is not resolved against the
  current page.
\<close>

lemma normalizeHref_http_prefix_kept:
  "normalizeHref ''http-basics.html'' ''https://a.test/docs/'' ''https://a.test''
     = Some ''http-basics.html''"
  by (simp add: normalizeHref_def resolveHref_def splitHead_def)

text \<open>The second copy of the script differs on the two literals only.\<close>

lemma resolveHrefCopy_agrees:
  "h \<noteq> ''true'' \<Longrightarrow> h \<noteq> ''false'' \<Longrightarrow> resolveHrefCopy b p h = resolveHref b p h"
  by (simp add: resolveHrefCopy_def resolveHref_def)

lemma resolveHrefCopy_true:
  "resolveHrefCopy ''https://a.test'' ''https://a.test/'' ''true'' = Some ''https://a.test/true''"
  by (simp add: resolveHrefCopy_def splitHead_def)

text \<open>
  C6. Query strings never distinguish targets: for every path \<open>a\<close> and all query strings
  \<open>q1\<close> and \<open>q2\<close>, the hrefs \<open>/a?q1\<close> and \<open>/a?q2\<close> normalise to the same result against the
  same current page and base origin; and when the base origin starts with \<open>http\<close> that
  result is a URL, the same for both: \<open>b + "/" + a\<close> cut at its first question mark,
  which starts with \<open>http\<close> and has no question mark.
\<close>

theorem normalizeHref_ignores_query:
  "normalizeHref (''/'' @ a @ ''?'' @ q1) p b = normalizeHref (''/'' @ a @ ''?'' @ q2) p b \<and>
   (startsWith b ''http'' \<longrightarrow>
      normalizeHref (''/'' @ a @ ''?'' @ q1) p b = Some (splitHead (b @ ''/'' @ a)) \<and>
      normalizeHref (''/'' @ a @ ''?'' @ q2) p b = Some (splitHead (b @ ''/'' @ a)) \<and>
      startsWith (splitHead (b @ ''/'' @ a)) ''http'' \<and>
      CHR ''?'' \<notin> set (splitHead (b @ ''/'' @ a)))"
proof -
  have r: "resolveHref b p (''/'' @ a @ ''?'' @ q) = Some (splitHead (b @ ''/'' @ a))" for q
    using splitHead_query[of "b @ ''/'' @ a"] by (simp add: resolveHref_def)
  have eq: "normalizeHref (''/'' @ a @ ''?'' @ q1) p b = normalizeHref (''/'' @ a @ ''?'' @ q2) p b"
    using r by (simp add: normalizeHref_def)
  have some: "normalizeHref (''/'' @ a @ ''?'' @ q) p b = Some (splitHead (b @ ''/'' @ a))"
    if "startsWith b ''http''" for q
  proof -
    have "splitHead (b @ ''/'' @ a) \<noteq> []"
      using splitHead_http_nonempty[OF startsWith_append_left[OF that]] .
    then show ?thesis using r[of q] by (simp add: normalizeHref_def)
  qed
  have abs: "startsWith (splitHead (b @ ''/'' @ a)) ''http''" if "startsWith b ''http''"
    using splitHead_http[OF startsWith_append_left[OF that]] .
  show ?thesis using eq some abs splitHead_no_query[of "b @ ''/'' @ a"] by blast
qed

theorem normalizeHref_ignores_query_witness:
  "startsWith ''https://a.test'' ''http'' \<and>
   normalizeHref ''/a?x=1'' ''https://a.test/docs/'' ''https://a.test'' = Some ''https://a.test/a'' \<and>
   normalizeHref ''/a?x=2'' ''https://a.test/docs/'' ''https://a.test'' = Some ''https://a.test/a''"
proof -
  have b: "startsWith ''https://a.test'' ''http''" by simp
  have s: "splitHead (''https://a.test'' @ ''/'' @ ''a'') = ''https://a.test/a''"
    by (simp add: splitHead_def)
  from normalizeHref_ignores_query[of "''a''" "''x=1''" "''https://a.test/docs/''"
      "''https://a.test''" "''x=2''"] b
  have "normalizeHref (''/'' @ ''a'' @ ''?'' @ ''x=1'') ''https://a.test/docs/'' ''https://a.test''
      = Some (splitHead (''https://a.test'' @ ''/'' @ ''a''))"
    and "normalizeHref (''/'' @ ''a'' @ ''?'' @ ''x=2'') ''https://a.test/docs/'' ''https://a.test''
      = Some (splitHead (''https://a.test'' @ ''/'' @ ''a''))"
    by blast+
  then show ?thesis using b unfolding s by simp
qed

text \<open>Every URL that \<open>getHrefs\<close> returns starts with \<open>http\<close> and has no question mark,
  when the base URL and the current URL start with \<open>http\<close>.\<close>

lemma resolveHref_kept:
  assumes "resolveHref b u h = Some x" and "x \<noteq> []"
    and "startsWith b ''http''" and "startsWith u ''http''"
  shows "startsWith x ''http'' \<and> CHR ''?'' \<notin> set x"
proof -
  from assms(1) obtain y where x: "x = splitHead y"
    and y: "y = b @ h \<or> y = u @ h \<or> (y = h \<and> startsWith h ''http'')"
    using assms(2) by (auto simp: resolveHref_def Let_def split: if_splits)
  from y assms(3,4) have "startsWith y ''http''"
    by (auto simp: startsWith_append_left)
  then show ?thesis using x by (simp add: splitHead_http splitHead_no_query)
qed

lemma getHrefs_absolute_stripped:
  assumes "x \<in> set (getHrefs b html u)" and "startsWith b ''http''" and "startsWith u ''http''"
  shows "startsWith x ''http'' \<and> CHR ''?'' \<notin> set x"
proof -
  from assms(1) obtain m where "truthy (resolveHref b u (slice6 m))"
    and "x = the (resolveHref b u (slice6 m))"
    by (auto simp: getHrefs_def)
  then have "resolveHref b u (slice6 m) = Some x" "x \<noteq> []"
    by (auto elim!: truthy.elims)
  then show ?thesis using assms(2,3) by (rule resolveHref_kept)
qed

section \<open>One iteration of the loop\<close>

lemma loopBody_skip:
  "url (queue st ! queuePosition st) \<in> visitedUrls st \<Longrightarrow>
   loopBody fetch b st = st\<lparr>queuePosition := Suc (queuePosition st)\<rparr>"
  by (simp add: loopBody_def)

lemma loopBody_fetch:
  "url (queue st ! queuePosition st) \<notin> visitedUrls st \<Longrightarrow>
   fetched (loopBody fetch b st) = fetched st @ [url (queue st ! queuePosition st)] \<and>
   visitedUrls (loopBody fetch b st) = insert (url (queue st ! queuePosition st)) (visitedUrls st)"
  by (simp add: loopBody_def Let_def split: sum.splits)

lemma loopBody_scanned:
  assumes "url (queue st ! queuePosition st) \<notin> visitedUrls st"
    and "scanPage fetch b (url (queue st ! queuePosition st)) = Inr hs"
  shows "loopBody fetch b st =
     st\<lparr>queuePosition := Suc (queuePosition st),
        visitedUrls := insert (url (queue st ! queuePosition st)) (visitedUrls st),
        fetched := fetched st @ [url (queue st ! queuePosition st)],
        queue := queue st @
          map (\<lambda>h. \<lparr>url = h, foundOn = url (queue st ! queuePosition st)\<rparr>)
            (filter (\<lambda>h. h \<notin> insert (url (queue st ! queuePosition st)) (visitedUrls st)) hs)\<rparr>"
  using assms by (simp add: loopBody_def Let_def)

lemma loopBody_position: "queuePosition (loopBody fetch b st) = Suc (queuePosition st)"
  by (simp add: loopBody_def Let_def split: sum.splits)

lemma loopBody_queue_grows: "\<exists>es. queue (loopBody fetch b st) = queue st @ es"
  by (simp add: loopBody_def Let_def split: sum.splits)

lemma loopBody_fetched_grows: "\<exists>ys. fetched (loopBody fetch b st) = fetched st @ ys"
  by (simp add: loopBody_def Let_def split: sum.splits)

lemma loopBody_inv: "crawlInv st \<Longrightarrow> crawlInv (loopBody fetch b st)"
proof (cases "url (queue st ! queuePosition st) \<in> visitedUrls st")
  case True
  assume "crawlInv st"
  then show ?thesis by (simp add: loopBody_skip[OF True] crawlInv_def)
next
  case False
  assume "crawlInv st"
  then show ?thesis using False loopBody_fetch[OF False, of fetch b]
    by (auto simp: crawlInv_def)
qed

lemma loopBody_visited_queued:
  assumes "loopCond st" and "visitedUrls st \<subseteq> url ` set (queue st)"
  shows "visitedUrls (loopBody fetch b st) \<subseteq> url ` set (queue (loopBody fetch b st))"
proof -
  obtain es where q: "queue (loopBody fetch b st) = queue st @ es"
    using loopBody_queue_grows by blast
  have "url (queue st ! queuePosition st) \<in> url ` set (queue st)"
    using assms(1) by (simp add: loopCond_def)
  moreover have "visitedUrls (loopBody fetch b st)
      \<subseteq> insert (url (queue st ! queuePosition st)) (visitedUrls st)"
    using loopBody_skip[of st fetch b] loopBody_fetch[of st fetch b]
    by (cases "url (queue st ! queuePosition st) \<in> visitedUrls st") auto
  ultimately show ?thesis using assms(2) q by auto
qed

lemma loopBody_within:
  assumes "\<forall>u\<in>S. \<forall>hs. scanPage fetch b u = Inr hs \<longrightarrow> set hs \<subseteq> S"
    and "loopCond st" and "url ` set (queue st) \<subseteq> S"
  shows "url ` set (queue (loopBody fetch b st)) \<subseteq> S"
proof (cases "scanPage fetch b (url (queue st ! queuePosition st))")
  case (Inl err)
  then show ?thesis using assms(3) by (simp add: loopBody_def Let_def)
next
  case (Inr hs)
  have "url (queue st ! queuePosition st) \<in> S"
    using assms(2,3) by (auto simp: loopCond_def)
  then have "set hs \<subseteq> S" using assms(1) Inr by blast
  then show ?thesis using assms(3) Inr by (auto simp: loopBody_def Let_def)
qed

section \<open>Runs of the loop\<close>

lemma initialState_inv: "crawlInv (initialState s)"
  by (simp add: crawlInv_def initialState_def)

lemma iterations_inv: "crawlInv st \<Longrightarrow> crawlInv (iterations fetch b n st)"
  by (induction n arbitrary: st) (auto simp: loopBody_inv)

lemma iterations_done: "\<not> loopCond st \<Longrightarrow> iterations fetch b n st = st"
  by (cases n) simp_all

lemma iterations_add:
  "iterations fetch b (m + n) st = iterations fetch b n (iterations fetch b m st)"
proof (induction m arbitrary: st)
  case 0
  show ?case by simp
next
  case (Suc m)
  show ?case
  proof (cases "loopCond st")
    case True
    then show ?thesis using Suc by simp
  next
    case False
    then show ?thesis by (simp add: iterations_done)
  qed
qed

lemma iterations_fetched_grows: "\<exists>ys. fetched (iterations fetch b n st) = fetched st @ ys"
proof (induction n arbitrary: st)
  case 0
  show ?case by simp
next
  case (Suc n)
  show ?case
  proof (cases "loopCond st")
    case True
    obtain ys where a: "fetched (loopBody fetch b st) = fetched st @ ys"
      using loopBody_fetched_grows by blast
    obtain zs where
      "fetched (iterations fetch b n (loopBody fetch b st)) = fetched (loopBody fetch b st) @ zs"
      using Suc by blast
    with a True show ?thesis by simp
  next
    case False
    then show ?thesis by simp
  qed
qed

lemma iterations_position_le:
  "queuePosition st \<le> length (queue st) \<Longrightarrow>
   queuePosition (iterations fetch b n st) \<le> length (queue (iterations fetch b n st))"
proof (induction n arbitrary: st)
  case 0
  then show ?case by simp
next
  case (Suc n)
  show ?case
  proof (cases "loopCond st")
    case True
    obtain es where "queue (loopBody fetch b st) = queue st @ es"
      using loopBody_queue_grows by blast
    then have "queuePosition (loopBody fetch b st) \<le> length (queue (loopBody fetch b st))"
      using True by (simp add: loopBody_position loopCond_def)
    from Suc.IH[OF this] True show ?thesis by simp
  next
    case False
    with Suc.prems show ?thesis by simp
  qed
qed

lemma iterations_visited_queued:
  "visitedUrls st \<subseteq> url ` set (queue st) \<Longrightarrow>
   visitedUrls (iterations fetch b n st) \<subseteq> url ` set (queue (iterations fetch b n st))"
proof (induction n arbitrary: st)
  case 0
  then show ?case by simp
next
  case (Suc n)
  show ?case
  proof (cases "loopCond st")
    case True
    from Suc.IH[OF loopBody_visited_queued[OF True Suc.prems]] True show ?thesis by simp
  next
    case False
    with Suc.prems show ?thesis by simp
  qed
qed

lemma iterations_within:
  assumes "\<forall>u\<in>S. \<forall>hs. scanPage fetch b u = Inr hs \<longrightarrow> set hs \<subseteq> S"
  shows "url ` set (queue st) \<subseteq> S \<Longrightarrow> url ` set (queue (iterations fetch b n st)) \<subseteq> S"
proof (induction n arbitrary: st)
  case 0
  then show ?case by simp
next
  case (Suc n)
  show ?case
  proof (cases "loopCond st")
    case True
    from Suc.IH[OF loopBody_within[OF assms True Suc.prems]] True show ?thesis by simp
  next
    case False
    with Suc.prems show ?thesis by simp
  qed
qed

text \<open>A run that returns has made finitely many iterations and ended with the loop
  condition false.\<close>

lemma runLoop_iterations:
  "runLoop fetch b st = Some st' \<Longrightarrow> \<exists>n. st' = iterations fetch b n st \<and> \<not> loopCond st'"
proof (induction rule: runLoop.raw_induct[rotated 1, consumes 1])
  case (1 runLoop' fetch b st st')
  show ?case
  proof (cases "loopCond st")
    case True
    with 1(2) have "runLoop' fetch b (loopBody fetch b st) = Some st'" by simp
    from 1(1)[OF this] obtain n where
      "st' = iterations fetch b n (loopBody fetch b st)" "\<not> loopCond st'" by blast
    then have "st' = iterations fetch b (Suc n) st \<and> \<not> loopCond st'" using True by simp
    then show ?thesis by blast
  next
    case False
    with 1(2) have "st' = iterations fetch b 0 st \<and> \<not> loopCond st'" by simp
    then show ?thesis by blast
  qed
qed

section \<open>Each URL is fetched at most once\<close>

text \<open>
  C1. In every run, after any number of iterations, no URL occurs twice in the sequence
  of fetches, and the same holds of the final state of every run that returns. In each
  iteration the popped entry is checked against the visited set before anything else: if
  its URL is visited, the iteration only advances the queue position (no fetch, no
  report entry, no new frontier entry); if not, the URL is put into the visited set and
  the transport is called once, for that URL. An iteration is one step of the model: the
  loop is sequential, and nothing else writes the visited set while a fetch is pending.
\<close>

theorem each_url_fetched_at_most_once:
  "distinct (fetched (iterations fetch (startingUrl arg) n (initialState (startingUrl arg)))) \<and>
   (\<forall>st. runLinkCheck fetch arg = Some st \<longrightarrow> distinct (fetched st)) \<and>
   (\<forall>st. loopCond st \<and> url (queue st ! queuePosition st) \<in> visitedUrls st \<longrightarrow>
      loopBody fetch b st = st\<lparr>queuePosition := Suc (queuePosition st)\<rparr>) \<and>
   (\<forall>st. loopCond st \<and> url (queue st ! queuePosition st) \<notin> visitedUrls st \<longrightarrow>
      visitedUrls (loopBody fetch b st)
        = insert (url (queue st ! queuePosition st)) (visitedUrls st) \<and>
      fetched (loopBody fetch b st) = fetched st @ [url (queue st ! queuePosition st)])"
proof -
  have run: "distinct (fetched (iterations fetch s k (initialState s)))" for s k
    using iterations_inv[OF initialState_inv, of fetch s k s] by (simp add: crawlInv_def)
  have final: "distinct (fetched st)" if "runLinkCheck fetch arg = Some st" for st
  proof -
    from that obtain k where
      "st = iterations fetch (startingUrl arg) k (initialState (startingUrl arg))"
      using runLoop_iterations[of fetch "startingUrl arg" "initialState (startingUrl arg)" st]
      by (auto simp: runLinkCheck_def Let_def)
    then show ?thesis using run by simp
  qed
  show ?thesis
    using run final loopBody_skip[of _ fetch b] loopBody_fetch[of _ fetch b] by blast
qed

text \<open>
  On \<open>demoSite\<close> the frontier holds \<open>/b\<close> twice, both entries added before \<open>/b\<close> is
  processed; five entries are popped and four URLs are fetched.
\<close>

theorem each_url_fetched_at_most_once_witness:
  "\<exists>st. runLinkCheck demoSite ''a.test'' = Some st \<and>
     map url (queue st) = [''https://a.test'', ''https://a.test/a'', ''https://a.test/b'',
       ''https://a.test/c'', ''https://a.test/b''] \<and>
     queuePosition st = 5 \<and>
     fetched st = [''https://a.test'', ''https://a.test/a'', ''https://a.test/b'',
       ''https://a.test/c''] \<and>
     distinct (fetched st)"
proof -
  have run: "runLinkCheck demoSite ''a.test'' = Some
    \<lparr>queue =
       [\<lparr>url = ''https://a.test'', foundOn = ''base URL''\<rparr>,
        \<lparr>url = ''https://a.test/a'', foundOn = ''https://a.test''\<rparr>,
        \<lparr>url = ''https://a.test/b'', foundOn = ''https://a.test''\<rparr>,
        \<lparr>url = ''https://a.test/c'', foundOn = ''https://a.test/a''\<rparr>,
        \<lparr>url = ''https://a.test/b'', foundOn = ''https://a.test/a''\<rparr>],
     queuePosition = 5,
     visitedUrls = {''https://a.test/c'', ''https://a.test/b'', ''https://a.test/a'',
       ''https://a.test''},
     brokenLinks =
       [\<lparr>url = ''https://a.test/b'', foundOn = ''https://a.test''\<rparr>,
        \<lparr>url = ''https://a.test/c'', foundOn = ''https://a.test/a''\<rparr>],
     fetched = [''https://a.test'', ''https://a.test/a'', ''https://a.test/b'',
       ''https://a.test/c'']\<rparr>" (is "_ = Some ?final")
    by (simp add: model_defs site_defs runLoop.simps)
  have "distinct (fetched ?final)"
    using each_url_fetched_at_most_once[of demoSite "''a.test''"] run by blast
  with run show ?thesis by simp
qed

section \<open>Termination\<close>

text \<open>
  C3. Let \<open>S\<close> be a finite set of URLs that holds the starting URL and, for each of its
  URLs, every href the crawl finds on that page (the link graph reachable from the seed,
  with or without cycles). Then the run returns; it ends with the queue position at the
  length of the frontier, and it has fetched each URL at most once, so at most
  \<open>card S\<close> pages. The measure of the loop is the number of URLs of \<open>S\<close> not yet
  visited, then the number of frontier entries not yet popped.
\<close>

theorem crawl_terminates:
  assumes "finite S" and "startingUrl arg \<in> S"
    and "\<forall>u\<in>S. \<forall>hs. scanPage fetch (startingUrl arg) u = Inr hs \<longrightarrow> set hs \<subseteq> S"
  shows "\<exists>st. runLinkCheck fetch arg = Some st \<and> queuePosition st = length (queue st) \<and>
           distinct (fetched st) \<and> length (fetched st) \<le> card S"
proof -
  let ?b = "startingUrl arg"
  let ?m = "measures [\<lambda>st. card (S - visitedUrls st), \<lambda>st. length (queue st) - queuePosition st]"
  have halts: "url ` set (queue st) \<subseteq> S \<Longrightarrow> \<exists>st'. runLoop fetch ?b st = Some st'" for st
  proof (induction st rule: wf_induct_rule[OF wf_measures[of
        "[\<lambda>st. card (S - visitedUrls st), \<lambda>st. length (queue st) - queuePosition st]"]])
    case (1 st)
    show ?case
    proof (cases "loopCond st")
      case False
      then show ?thesis by (subst runLoop.simps) simp
    next
      case True
      let ?u = "url (queue st ! queuePosition st)"
      let ?st' = "loopBody fetch ?b st"
      from True have pos: "queuePosition st < length (queue st)" by (simp add: loopCond_def)
      then have inS: "?u \<in> S" using 1(2) by (metis image_subset_iff nth_mem)
      have dec: "(?st', st) \<in> ?m"
      proof (cases "?u \<in> visitedUrls st")
        case True
        then show ?thesis using pos by (simp add: loopBody_skip)
      next
        case False
        have "S - insert ?u (visitedUrls st) \<subset> S - visitedUrls st"
          using inS False by blast
        then have "card (S - insert ?u (visitedUrls st)) < card (S - visitedUrls st)"
          using assms(1) by (simp add: psubset_card_mono)
        then show ?thesis using loopBody_fetch[OF False, of fetch ?b] by simp
      qed
      have "url ` set (queue ?st') \<subseteq> S"
        using loopBody_within[OF assms(3) True 1(2)] .
      from 1(1)[OF dec this] obtain st' where "runLoop fetch ?b ?st' = Some st'" by blast
      then show ?thesis using True by (subst runLoop.simps) simp
    qed
  qed
  let ?s0 = "initialState ?b"
  have q0: "url ` set (queue ?s0) \<subseteq> S" using assms(2) by (simp add: initialState_def)
  from halts[OF q0] obtain st where run: "runLoop fetch ?b ?s0 = Some st" by blast
  from runLoop_iterations[OF run] obtain n where
    st: "st = iterations fetch ?b n ?s0" and stop: "\<not> loopCond st" by blast
  have "queuePosition st \<le> length (queue st)"
    unfolding st by (rule iterations_position_le) (simp add: initialState_def)
  with stop have pos: "queuePosition st = length (queue st)" by (simp add: loopCond_def)
  have inv: "crawlInv st" unfolding st by (rule iterations_inv[OF initialState_inv])
  have "visitedUrls st \<subseteq> url ` set (queue st)"
    unfolding st by (rule iterations_visited_queued) (simp add: initialState_def)
  moreover have "url ` set (queue st) \<subseteq> S"
    unfolding st by (rule iterations_within[OF assms(3) q0])
  ultimately have "set (fetched st) \<subseteq> S" using inv by (simp add: crawlInv_def)
  then have "card (set (fetched st)) \<le> card S" using assms(1) by (rule card_mono[rotated])
  moreover have d: "distinct (fetched st)" using inv by (simp add: crawlInv_def)
  ultimately have "length (fetched st) \<le> card S" by (simp add: distinct_card)
  with run pos d show ?thesis by (auto simp: runLinkCheck_def Let_def)
qed

text \<open>\<open>cyclicSite\<close> has the cycle \<open>/a\<close>, \<open>/b\<close>, \<open>/a\<close>, and \<open>/a\<close> links back to the root.\<close>

theorem crawl_terminates_witness:
  "finite {''https://c.test'', ''https://c.test/'', ''https://c.test/a'', ''https://c.test/b''} \<and>
   startingUrl ''c.test''
     \<in> {''https://c.test'', ''https://c.test/'', ''https://c.test/a'', ''https://c.test/b''} \<and>
   scanPage cyclicSite ''https://c.test'' ''https://c.test/a''
     = Inr [''https://c.test/b'', ''https://c.test/''] \<and>
   scanPage cyclicSite ''https://c.test'' ''https://c.test/b'' = Inr [''https://c.test/a''] \<and>
   (\<exists>st. runLinkCheck cyclicSite ''c.test'' = Some st \<and>
      queuePosition st = length (queue st) \<and> length (fetched st) \<le> 4)"
proof -
  let ?S = "{''https://c.test'', ''https://c.test/'', ''https://c.test/a'', ''https://c.test/b''}"
  have f: "finite ?S" by simp
  have s: "startingUrl ''c.test'' \<in> ?S" by (simp add: startingUrl_def)
  have c: "\<forall>u\<in>?S. \<forall>hs. scanPage cyclicSite (startingUrl ''c.test'') u = Inr hs \<longrightarrow> set hs \<subseteq> ?S"
    by (simp add: model_defs site_defs)
  have a: "scanPage cyclicSite ''https://c.test'' ''https://c.test/a''
     = Inr [''https://c.test/b'', ''https://c.test/'']"
    by (simp add: model_defs site_defs)
  have b: "scanPage cyclicSite ''https://c.test'' ''https://c.test/b'' = Inr [''https://c.test/a'']"
    by (simp add: model_defs site_defs)
  have k: "card ?S = 4" by simp
  from crawl_terminates[OF f s c] obtain st where
    "runLinkCheck cyclicSite ''c.test'' = Some st" "queuePosition st = length (queue st)"
    "length (fetched st) \<le> card ?S" by blast
  then have "\<exists>st. runLinkCheck cyclicSite ''c.test'' = Some st \<and>
      queuePosition st = length (queue st) \<and> length (fetched st) \<le> 4"
    unfolding k by blast
  with f s a b show ?thesis by blast
qed

section \<open>Breadth-first order\<close>

text \<open>The sequence of fetches is the popped part of the frontier, in insertion order,
  with repeated URLs dropped.\<close>

lemma firstOccurrences_snoc:
  "firstOccurrences (xs @ [x]) =
     (if x \<in> set xs then firstOccurrences xs else firstOccurrences xs @ [x])"
  by (simp add: firstOccurrences_def)

lemma loopBody_fifoInv:
  assumes "fifoInv st" and "loopCond st"
  shows "fifoInv (loopBody fetch b st)"
proof -
  let ?p = "queuePosition st"
  let ?u = "url (queue st ! ?p)"
  let ?st' = "loopBody fetch b st"
  from assms(2) have pos: "?p < length (queue st)" by (simp add: loopCond_def)
  obtain es where q: "queue ?st' = queue st @ es"
    using loopBody_queue_grows by blast
  have p: "queuePosition ?st' = Suc ?p" by (rule loopBody_position)
  have t: "map url (take (queuePosition ?st') (queue ?st'))
      = map url (take ?p (queue st)) @ [?u]"
    using pos by (simp add: p q take_Suc_conv_app_nth)
  have v: "visitedUrls st = set (map url (take ?p (queue st)))"
    and f: "fetched st = firstOccurrences (map url (take ?p (queue st)))"
    using assms(1) by (simp_all add: fifoInv_def)
  have le: "queuePosition ?st' \<le> length (queue ?st')" using pos by (simp add: p q)
  show ?thesis
  proof (cases "?u \<in> visitedUrls st")
    case True
    have "visitedUrls ?st' = visitedUrls st" "fetched ?st' = fetched st"
      by (simp_all add: loopBody_skip[OF True])
    then show ?thesis
      unfolding fifoInv_def t firstOccurrences_snoc using True le v f by auto
  next
    case False
    have "visitedUrls ?st' = insert ?u (visitedUrls st)" "fetched ?st' = fetched st @ [?u]"
      using loopBody_fetch[OF False, of fetch b] by simp_all
    then show ?thesis
      unfolding fifoInv_def t firstOccurrences_snoc using False le v f by auto
  qed
qed

lemma iterations_fifoInv: "fifoInv st \<Longrightarrow> fifoInv (iterations fetch b n st)"
  by (induction n arbitrary: st) (auto simp: loopBody_fifoInv)

lemma initialState_fifoInv: "fifoInv (initialState s)"
  by (simp add: fifoInv_def initialState_def firstOccurrences_def)

lemma fetched_in_frontier_order:
  "fetched (iterations fetch s n (initialState s)) =
     firstOccurrences (map url
       (take (queuePosition (iterations fetch s n (initialState s)))
          (queue (iterations fetch s n (initialState s)))))"
  using iterations_fifoInv[OF initialState_fifoInv, of fetch s n s] by (simp add: fifoInv_def)

lemma first_four_fetches:
  assumes d: "distinct [seed, A, B, C]"
    and s: "scanPage fetch seed seed = Inr [A, B]"
    and a: "scanPage fetch seed A = Inr [C]"
  shows "fetched (iterations fetch seed (Suc (Suc (Suc (Suc 0)))) (initialState seed))
    = [seed, A, B, C]"
proof -
  let ?s0 = "initialState seed"
  let ?s1 = "\<lparr>queue = [\<lparr>url = seed, foundOn = ''base URL''\<rparr>, \<lparr>url = A, foundOn = seed\<rparr>,
                       \<lparr>url = B, foundOn = seed\<rparr>],
              queuePosition = Suc 0, visitedUrls = {seed}, brokenLinks = [], fetched = [seed]\<rparr>"
  let ?s2 = "\<lparr>queue = [\<lparr>url = seed, foundOn = ''base URL''\<rparr>, \<lparr>url = A, foundOn = seed\<rparr>,
                       \<lparr>url = B, foundOn = seed\<rparr>, \<lparr>url = C, foundOn = A\<rparr>],
              queuePosition = Suc (Suc 0), visitedUrls = {A, seed}, brokenLinks = [],
              fetched = [seed, A]\<rparr>"
  let ?s3 = "loopBody fetch seed ?s2"
  from d have ne: "A \<noteq> seed" "B \<noteq> seed" "B \<noteq> A" "C \<noteq> seed" "C \<noteq> A" "C \<noteq> B"
    by auto
  have 1: "loopBody fetch seed ?s0 = ?s1"
    using d s by (subst loopBody_scanned[where hs = "[A, B]"]) (auto simp: initialState_def)
  have 2: "loopBody fetch seed ?s1 = ?s2"
    using d a by (subst loopBody_scanned[where hs = "[C]"]) auto
  obtain es where q3: "queue ?s3 = queue ?s2 @ es"
    using loopBody_queue_grows by blast
  have p3: "queuePosition ?s3 = Suc (Suc (Suc 0))"
    by (simp add: loopBody_position)
  have f3: "fetched ?s3 = [seed, A, B] \<and> visitedUrls ?s3 = {B, A, seed}"
    using ne loopBody_fetch[of ?s2 fetch seed] by simp
  have c3: "loopCond ?s3" using q3 p3 by (simp add: loopCond_def)
  have e3: "url (queue ?s3 ! queuePosition ?s3) = C" using q3 p3 by simp
  have f4: "fetched (loopBody fetch seed ?s3) = [seed, A, B, C]"
    using ne f3 e3 loopBody_fetch[of ?s3 fetch seed] by simp
  have c0: "loopCond ?s0" by (simp add: loopCond_def initialState_def)
  have c1: "loopCond ?s1" by (simp add: loopCond_def)
  have c2: "loopCond ?s2" by (simp add: loopCond_def)
  have "iterations fetch seed (Suc (Suc (Suc (Suc 0)))) ?s0 = loopBody fetch seed ?s3"
    using c0 c1 c2 c3 by (simp add: 1 2)
  then show ?thesis using f4 by simp
qed

text \<open>
  C5. Fetches are issued in the order of discovery. When the seed page links to \<open>A\<close>
  then \<open>B\<close>, and \<open>A\<close> links to \<open>C\<close> (four distinct URLs), the first four fetches of every
  run are seed, \<open>A\<close>, \<open>B\<close>, \<open>C\<close>, whatever \<open>B\<close> and \<open>C\<close> answer: this holds after any
  number of iterations from four on, and in the final state of every run that returns.
  In general the fetches are the URLs of the popped entries in the order of insertion
  into the frontier, each at its first occurrence; new entries go to the tail
  (\<open>loopBody_queue_grows\<close>).
\<close>

theorem breadth_first_fetch_order:
  assumes "seed = startingUrl arg" and "distinct [seed, A, B, C]"
    and "scanPage fetch seed seed = Inr [A, B]"
    and "scanPage fetch seed A = Inr [C]"
  shows "(\<forall>n \<ge> 4. take 4 (fetched (iterations fetch seed n (initialState seed))) = [seed, A, B, C]) \<and>
         (\<forall>st. runLinkCheck fetch arg = Some st \<longrightarrow> take 4 (fetched st) = [seed, A, B, C]) \<and>
         (\<forall>n. fetched (iterations fetch seed n (initialState seed)) =
            firstOccurrences (map url
              (take (queuePosition (iterations fetch seed n (initialState seed)))
                 (queue (iterations fetch seed n (initialState seed))))))"
proof -
  let ?s0 = "initialState seed"
  have four: "fetched (iterations fetch seed 4 ?s0) = [seed, A, B, C]"
    using first_four_fetches[OF assms(2-4)] by (simp add: numeral_eq_Suc)
  have later: "take 4 (fetched (iterations fetch seed n ?s0)) = [seed, A, B, C]" if "4 \<le> n" for n
  proof -
    from that obtain k where n: "n = 4 + k" using le_Suc_ex by blast
    obtain ys where "fetched (iterations fetch seed k (iterations fetch seed 4 ?s0))
        = fetched (iterations fetch seed 4 ?s0) @ ys"
      using iterations_fetched_grows by blast
    then show ?thesis unfolding n iterations_add four by simp
  qed
  have final: "take 4 (fetched st) = [seed, A, B, C]" if "runLinkCheck fetch arg = Some st" for st
  proof -
    from that have "runLoop fetch seed ?s0 = Some st"
      by (simp add: runLinkCheck_def Let_def assms(1))
    from runLoop_iterations[OF this] obtain n where
      st: "st = iterations fetch seed n ?s0" and stop: "\<not> loopCond st" by blast
    have "iterations fetch seed (n + 4) ?s0 = st"
      unfolding iterations_add st[symmetric] using stop by (rule iterations_done)
    then show ?thesis using later[of "n + 4"] by simp
  qed
  show ?thesis using later final fetched_in_frontier_order[of fetch seed] by blast
qed

text \<open>On \<open>bfsSite\<close>, \<open>/c\<close> is found on \<open>/a\<close> before \<open>/b\<close> is processed, and is fetched
  after \<open>/b\<close>.\<close>

theorem breadth_first_fetch_order_witness:
  "''https://b.test'' = startingUrl ''b.test'' \<and>
   distinct [''https://b.test'', ''https://b.test/a'', ''https://b.test/b'', ''https://b.test/c''] \<and>
   scanPage bfsSite ''https://b.test'' ''https://b.test''
     = Inr [''https://b.test/a'', ''https://b.test/b''] \<and>
   scanPage bfsSite ''https://b.test'' ''https://b.test/a'' = Inr [''https://b.test/c''] \<and>
   (\<exists>st. runLinkCheck bfsSite ''b.test'' = Some st \<and>
      fetched st = [''https://b.test'', ''https://b.test/a'', ''https://b.test/b'',
        ''https://b.test/c'', ''https://b.test/d''] \<and>
      take 4 (fetched st)
        = [''https://b.test'', ''https://b.test/a'', ''https://b.test/b'', ''https://b.test/c''])"
proof -
  have s: "''https://b.test'' = startingUrl ''b.test''" by (simp add: startingUrl_def)
  have d: "distinct [''https://b.test'', ''https://b.test/a'', ''https://b.test/b'',
    ''https://b.test/c'']" by simp
  have p0: "scanPage bfsSite ''https://b.test'' ''https://b.test''
     = Inr [''https://b.test/a'', ''https://b.test/b'']"
    by (simp add: model_defs site_defs)
  have pa: "scanPage bfsSite ''https://b.test'' ''https://b.test/a'' = Inr [''https://b.test/c'']"
    by (simp add: model_defs site_defs)
  have run: "runLinkCheck bfsSite ''b.test'' = Some
    \<lparr>queue =
       [\<lparr>url = ''https://b.test'', foundOn = ''base URL''\<rparr>,
        \<lparr>url = ''https://b.test/a'', foundOn = ''https://b.test''\<rparr>,
        \<lparr>url = ''https://b.test/b'', foundOn = ''https://b.test''\<rparr>,
        \<lparr>url = ''https://b.test/c'', foundOn = ''https://b.test/a''\<rparr>,
        \<lparr>url = ''https://b.test/d'', foundOn = ''https://b.test/b''\<rparr>],
     queuePosition = 5,
     visitedUrls = {''https://b.test/d'', ''https://b.test/c'', ''https://b.test/b'',
       ''https://b.test/a'', ''https://b.test''},
     brokenLinks = [],
     fetched = [''https://b.test'', ''https://b.test/a'', ''https://b.test/b'',
       ''https://b.test/c'', ''https://b.test/d'']\<rparr>" (is "_ = Some ?final")
    by (simp add: model_defs site_defs runLoop.simps)
  have "take 4 (fetched ?final)
      = [''https://b.test'', ''https://b.test/a'', ''https://b.test/b'', ''https://b.test/c'']"
    using breadth_first_fetch_order[OF s d p0 pa] run by blast
  with s d p0 pa run show ?thesis by simp
qed

section \<open>Hrefs that are not pages\<close>

lemma getHrefs_Nil: "getHrefs b [] u = []"
  by (simp add: getHrefs_def)

lemma loopBody_no_hrefs:
  assumes "getHrefs baseUrl html (url (queue st ! queuePosition st)) = []"
    and "fetch (url (queue st ! queuePosition st)) = Some r" and "bodyText r = Some html"
  shows "queue (loopBody fetch baseUrl st) = queue st"
  using assms
  by (simp add: loopBody_def scanPage_def Let_def getHrefs_Nil split: option.splits)

text \<open>
  C9. For every page whose hrefs, as the extraction pattern finds them, are exactly
  \<open>#section\<close>, \<open>mailto:x@y.com\<close> and \<open>true\<close> (in any order, any number of times), all of
  them are discarded: \<open>getHrefs\<close> returns no URL, and an iteration that processes this
  page leaves the frontier as it was.
\<close>

theorem fragment_mailto_true_add_nothing:
  assumes "set (map slice6 (matchAll html)) = {''#section'', ''mailto:x@y.com'', ''true''}"
  shows "getHrefs baseUrl html currentUrl = [] \<and>
    (\<forall>fetch st r. loopCond st \<and> fetch (url (queue st ! queuePosition st)) = Some r \<and>
        bodyText r = Some html \<longrightarrow>
      queue (loopBody fetch baseUrl st) = queue st)"
proof -
  have none: "getHrefs baseUrl html u = []" for u
  proof -
    have "\<forall>h \<in> set (map slice6 (matchAll html)). resolveHref baseUrl u h = None"
      unfolding assms by (simp add: resolveHref_def)
    then have "\<forall>m \<in> set (matchAll html). \<not> truthy (resolveHref baseUrl u (slice6 m))"
      by simp
    then show ?thesis by (simp add: getHrefs_def filter_empty_conv)
  qed
  show ?thesis using none loopBody_no_hrefs[OF none] by blast
qed

theorem fragment_mailto_true_add_nothing_witness:
  "map slice6 (matchAll scenarioPage) = [''#section'', ''mailto:x@y.com'', ''true''] \<and>
   set (map slice6 (matchAll scenarioPage)) = {''#section'', ''mailto:x@y.com'', ''true''} \<and>
   getHrefs ''https://s.test'' scenarioPage ''https://s.test'' = [] \<and>
   loopCond (initialState ''https://s.test'') \<and>
   scenarioSite ''https://s.test'' = Some (htmlPage scenarioPage) \<and>
   bodyText (htmlPage scenarioPage) = Some scenarioPage \<and>
   queue (loopBody scenarioSite ''https://s.test'' (initialState ''https://s.test''))
     = [\<lparr>url = ''https://s.test'', foundOn = ''base URL''\<rparr>]"
proof -
  have m: "map slice6 (matchAll scenarioPage) = [''#section'', ''mailto:x@y.com'', ''true'']"
    by (simp add: scenarioPage_def anchor_def matchHere_def lineTerminator_def slice6_def)
  then have h: "set (map slice6 (matchAll scenarioPage))
      = {''#section'', ''mailto:x@y.com'', ''true''}"
    by simp
  have c: "loopCond (initialState ''https://s.test'')"
    by (simp add: loopCond_def initialState_def)
  have f: "scenarioSite (url (queue (initialState ''https://s.test'')
      ! queuePosition (initialState ''https://s.test''))) = Some (htmlPage scenarioPage)"
    by (simp add: scenarioSite_def initialState_def)
  have b: "bodyText (htmlPage scenarioPage) = Some scenarioPage"
    by (simp add: htmlPage_def)
  note t = fragment_mailto_true_add_nothing[OF h, of "''https://s.test''"]
  from t have "getHrefs ''https://s.test'' scenarioPage ''https://s.test'' = []" by blast
  moreover from t c f b have
    "queue (loopBody scenarioSite ''https://s.test'' (initialState ''https://s.test''))
      = queue (initialState ''https://s.test'')" by blast
  ultimately show ?thesis using m h c b
    by (simp add: initialState_def scenarioSite_def)
qed

section \<open>Classification of fetch outcomes\<close>

text \<open>
  The \<open>try\<close> block throws exactly when the request is rejected, the status is 404, or
  the URL is under the base URL and either the response has no content type or its
  HTML body cannot be read. An entry is reported broken exactly when the block throws.
\<close>

lemma scanPage_throws_iff:
  "(\<exists>err. scanPage fetch b u = Inl err) \<longleftrightarrow>
     (case fetch u of
        None \<Rightarrow> True
      | Some r \<Rightarrow>
          status r = 404 \<or>
          (startsWith u b \<and>
             (case headers r ''content-type'' of
                None \<Rightarrow> True
              | Some ct \<Rightarrow> includesStr ct ''text/html'' \<and> bodyText r = None)))"
  by (simp add: scanPage_def split: option.splits)

lemma loopBody_broken:
  assumes "url (queue st ! queuePosition st) \<notin> visitedUrls st"
  shows "brokenLinks (loopBody fetch b st) =
     (case scanPage fetch b (url (queue st ! queuePosition st)) of
        Inl err \<Rightarrow> brokenLinks st @ [\<lparr>url = url (queue st ! queuePosition st),
                                      foundOn = foundOn (queue st ! queuePosition st)\<rparr>]
      | Inr hs \<Rightarrow> brokenLinks st)"
  using assms by (simp add: loopBody_def Let_def split: sum.splits)

lemma other_status_scanned:
  assumes "fetch u = Some r" and "status r \<noteq> 404" and "startsWith u b"
    and "headers r ''content-type'' = Some ct" and "includesStr ct ''text/html''"
    and "bodyText r = Some html"
  shows "scanPage fetch b u = Inr (getHrefs b html u)"
  using assms by (simp add: scanPage_def)

text \<open>
  C2. The claim: an outcome is broken exactly when the fetch raises a transport error or
  returns status 404, and every other status is a success with no report entry. The
  run below is on a site that answers the starting URL with status 200 and no
  content-type header: no transport error and no 404, and the starting URL is reported
  as a broken link.
\<close>

theorem status_200_without_content_type_reported:
  "noTypeSite ''https://a.test'' = Some (bareResponse 200) \<and>
   status (bareResponse 200) = 200 \<and>
   runLinkCheck noTypeSite ''a.test'' = Some
     \<lparr>queue = [\<lparr>url = ''https://a.test'', foundOn = ''base URL''\<rparr>],
      queuePosition = 1,
      visitedUrls = {''https://a.test''},
      brokenLinks = [\<lparr>url = ''https://a.test'', foundOn = ''base URL''\<rparr>],
      fetched = [''https://a.test'']\<rparr>"
  by (simp add: model_defs site_defs runLoop.simps)

text \<open>
  C10. When the popped entry is not yet visited, its URL is under the base URL, the fetch
  returns a status other than 404 and the response has no content-type header, the
  inspection of the header throws: the URL is appended to the broken links, and nothing
  is appended to the frontier.
\<close>

theorem missing_content_type_is_broken:
  assumes "loopCond st" and "e = queue st ! queuePosition st" and "url e \<notin> visitedUrls st"
    and "startsWith (url e) baseUrl" and "fetch (url e) = Some r" and "status r \<noteq> 404"
    and "headers r ''content-type'' = None"
  shows "brokenLinks (loopBody fetch baseUrl st)
      = brokenLinks st @ [\<lparr>url = url e, foundOn = foundOn e\<rparr>] \<and>
    queue (loopBody fetch baseUrl st) = queue st \<and>
    scanPage fetch baseUrl (url e) = Inl NullContentType"
  using assms by (simp add: loopBody_def scanPage_def Let_def)

lemma demoState2_eq:
  "demoState2 =
    \<lparr>queue =
       [\<lparr>url = ''https://a.test'', foundOn = ''base URL''\<rparr>,
        \<lparr>url = ''https://a.test/a'', foundOn = ''https://a.test''\<rparr>,
        \<lparr>url = ''https://a.test/b'', foundOn = ''https://a.test''\<rparr>,
        \<lparr>url = ''https://a.test/c'', foundOn = ''https://a.test/a''\<rparr>,
        \<lparr>url = ''https://a.test/b'', foundOn = ''https://a.test/a''\<rparr>],
     queuePosition = 2,
     visitedUrls = {''https://a.test/a'', ''https://a.test''},
     brokenLinks = [],
     fetched = [''https://a.test'', ''https://a.test/a'']\<rparr>"
  by (simp add: demoState2_def model_defs site_defs)

theorem missing_content_type_is_broken_witness:
  "loopCond demoState2 \<and>
   queue demoState2 ! queuePosition demoState2
     = \<lparr>url = ''https://a.test/b'', foundOn = ''https://a.test''\<rparr> \<and>
   ''https://a.test/b'' \<notin> visitedUrls demoState2 \<and>
   startsWith ''https://a.test/b'' ''https://a.test'' \<and>
   demoSite ''https://a.test/b'' = Some (bareResponse 200) \<and>
   status (bareResponse 200) \<noteq> 404 \<and>
   headers (bareResponse 200) ''content-type'' = None \<and>
   brokenLinks demoState2 = [] \<and>
   brokenLinks (loopBody demoSite ''https://a.test'' demoState2)
     = [\<lparr>url = ''https://a.test/b'', foundOn = ''https://a.test''\<rparr>]"
proof -
  let ?e = "\<lparr>url = ''https://a.test/b'', foundOn = ''https://a.test''\<rparr>"
  have c: "loopCond demoState2" by (simp add: demoState2_eq loopCond_def)
  have e: "?e = queue demoState2 ! queuePosition demoState2"
    by (simp add: demoState2_eq numeral_2_eq_2)
  have v: "url ?e \<notin> visitedUrls demoState2" by (simp add: demoState2_eq)
  have o: "startsWith (url ?e) ''https://a.test''" by simp
  have f: "demoSite (url ?e) = Some (bareResponse 200)" by (simp add: demoSite_def)
  have s: "status (bareResponse 200) \<noteq> 404" by (simp add: bareResponse_def)
  have h: "headers (bareResponse 200) ''content-type'' = None" by (simp add: bareResponse_def)
  have b: "brokenLinks demoState2 = []" by (simp add: demoState2_eq)
  from missing_content_type_is_broken[of demoState2 ?e "''https://a.test''" demoSite
      "bareResponse 200", OF c e v o f s h]
  have r: "brokenLinks (loopBody demoSite ''https://a.test'' demoState2)
      = brokenLinks demoState2 @ [?e]"
    by simp
  have e': "queue demoState2 ! queuePosition demoState2 = ?e" using e by simp
  have v': "''https://a.test/b'' \<notin> visitedUrls demoState2" using v by simp
  have f': "demoSite ''https://a.test/b'' = Some (bareResponse 200)" using f by simp
  have o': "startsWith ''https://a.test/b'' ''https://a.test''" by simp
  show ?thesis using c e' v' o' f' s h b r by simp
qed

section \<open>The URLs of the frontier\<close>

lemma scanPage_hrefs:
  assumes "scanPage fetch b u = Inr hs" and "x \<in> set hs"
    and "startsWith b ''http''" and "startsWith u ''http''"
  shows "startsWith x ''http'' \<and> CHR ''?'' \<notin> set x"
  using assms getHrefs_absolute_stripped[of x b _ u]
  by (auto simp: scanPage_def split: option.splits if_splits)

lemma loopBody_frontierInv:
  assumes "frontierInv st" and "loopCond st" and "startsWith b ''http''"
  shows "frontierInv (loopBody fetch b st)"
proof (cases "scanPage fetch b (url (queue st ! queuePosition st))")
  case (Inl err)
  then show ?thesis using assms(1) by (simp add: loopBody_def Let_def frontierInv_def)
next
  case (Inr hs)
  have "startsWith (url (queue st ! queuePosition st)) ''http''"
    using assms(1,2) by (simp add: frontierInv_def loopCond_def)
  then have "\<forall>x \<in> set hs. startsWith x ''http'' \<and> CHR ''?'' \<notin> set x"
    using scanPage_hrefs[OF Inr _ assms(3)] by blast
  moreover have "queue st \<noteq> []" using assms(2) by (auto simp: loopCond_def)
  ultimately show ?thesis using assms(1) Inr
    by (auto simp: loopBody_def Let_def frontierInv_def)
qed

lemma iterations_frontierInv:
  "frontierInv st \<Longrightarrow> startsWith b ''http'' \<Longrightarrow> frontierInv (iterations fetch b n st)"
  by (induction n arbitrary: st) (auto simp: loopBody_frontierInv)

lemma iterations_queue_grows: "\<exists>es. queue (iterations fetch b n st) = queue st @ es"
proof (induction n arbitrary: st)
  case 0
  show ?case by simp
next
  case (Suc n)
  show ?case
  proof (cases "loopCond st")
    case True
    obtain es where a: "queue (loopBody fetch b st) = queue st @ es"
      using loopBody_queue_grows by blast
    obtain fs where
      "queue (iterations fetch b n (loopBody fetch b st)) = queue (loopBody fetch b st) @ fs"
      using Suc by blast
    with a True show ?thesis by simp
  next
    case False
    then show ?thesis by simp
  qed
qed

lemma frontier_urls_http:
  "e \<in> set (queue (iterations fetch (startingUrl arg) n (initialState (startingUrl arg)))) \<Longrightarrow>
   startsWith (url e) ''http''"
  using iterations_frontierInv[of "initialState (startingUrl arg)" "startingUrl arg" fetch n]
    startingUrl_http[of arg]
  by (simp add: frontierInv_def initialState_def)

lemma discovered_urls_no_query:
  "e \<in> set (tl (queue (iterations fetch (startingUrl arg) n (initialState (startingUrl arg))))) \<Longrightarrow>
   CHR ''?'' \<notin> set (url e)"
  using iterations_frontierInv[of "initialState (startingUrl arg)" "startingUrl arg" fetch n]
    startingUrl_http[of arg]
  by (simp add: frontierInv_def initialState_def)

lemma seed_without_query:
  "CHR ''?'' \<notin> set (startingUrl arg) \<Longrightarrow>
   e \<in> set (queue (iterations fetch (startingUrl arg) n (initialState (startingUrl arg)))) \<Longrightarrow>
   CHR ''?'' \<notin> set (url e)"
proof -
  assume q: "CHR ''?'' \<notin> set (startingUrl arg)"
    and e: "e \<in> set (queue (iterations fetch (startingUrl arg) n (initialState (startingUrl arg))))"
  obtain es where "queue (iterations fetch (startingUrl arg) n (initialState (startingUrl arg)))
      = queue (initialState (startingUrl arg)) @ es"
    using iterations_queue_grows by blast
  then have "queue (iterations fetch (startingUrl arg) n (initialState (startingUrl arg)))
      = \<lparr>url = startingUrl arg, foundOn = ''base URL''\<rparr> # es"
    by (simp add: initialState_def)
  with e have "url e = startingUrl arg
      \<or> e \<in> set (tl (queue (iterations fetch (startingUrl arg) n (initialState (startingUrl arg)))))"
    by auto
  then show ?thesis using q discovered_urls_no_query by metis
qed

text \<open>
  C7. The claim: every frontier entry, the seed included, has an absolute URL without a
  query string. The lemmas above prove it for every entry after the seed, and for the
  seed when the starting URL has no question mark. The seed is the starting URL as
  given, with only its scheme adjusted: for the argument \<open>a.test/?page=2\<close> the seed
  entry keeps its query string and is fetched with it, and the base URL keeps it too, so
  that the href \<open>/about\<close> found on a page resolves to \<open>https://a.test/\<close>.
\<close>

theorem seed_keeps_query_string:
  "runLinkCheck deadSite ''a.test/?page=2'' = Some
     \<lparr>queue = [\<lparr>url = ''https://a.test/?page=2'', foundOn = ''base URL''\<rparr>],
      queuePosition = 1,
      visitedUrls = {''https://a.test/?page=2''},
      brokenLinks = [\<lparr>url = ''https://a.test/?page=2'', foundOn = ''base URL''\<rparr>],
      fetched = [''https://a.test/?page=2'']\<rparr> \<and>
   CHR ''?'' \<in> set ''https://a.test/?page=2'' \<and>
   normalizeHref ''/about'' ''https://a.test/?page=2'' ''https://a.test/?page=2''
     = Some ''https://a.test/''"
  by (simp add: model_defs site_defs runLoop.simps)

end
